theory Spec2Isabelle
  imports Main "HOL-Library.Multiset"
begin

section \<open>The block summation program (puzzle/2022/d01/main.cpp)\<close>

text \<open>
  The program is one routine, \<^verbatim>\<open>main\<close>: it reads standard input line by line with
  \<^verbatim>\<open>getline\<close>, adds \<^verbatim>\<open>stoi(line)\<close> to the accumulator \<^verbatim>\<open>count\<close> on a non-empty
  line, pushes the accumulator onto the vector \<^verbatim>\<open>elfs\<close> and resets it on an empty line,
  sorts the vector with \<^verbatim>\<open>greater\<close>, adds up \<^verbatim>\<open>elfs[0]\<close>, \<^verbatim>\<open>elfs[1]\<close>, \<^verbatim>\<open>elfs[2]\<close>
  and prints the total.

  Standard input is a \<open>string\<close> (a list of bytes). Every way in which the C++ program
  can stop without printing is a value of \<open>error\<close>: the two exceptions of \<^verbatim>\<open>std::stoi\<close>,
  which \<^verbatim>\<open>main\<close> does not catch, and the two kinds of undefined behaviour the routine
  can run into, overflow of a signed \<^verbatim>\<open>int\<close> addition and a vector read past the end.
  The accumulator is called \<open>cnt\<close> here, because \<open>count\<close> is a constant of the
  multiset library.
\<close>

subsection \<open>Failures and the type int\<close>

datatype error =
    InvalidArgument  \<comment> \<open>\<^verbatim>\<open>std::invalid_argument\<close> thrown by \<^verbatim>\<open>stoi\<close>\<close>
  | OutOfRange       \<comment> \<open>\<^verbatim>\<open>std::out_of_range\<close> thrown by \<^verbatim>\<open>stoi\<close>\<close>
  | SignedOverflow   \<comment> \<open>an \<^verbatim>\<open>int\<close> addition whose result is not an \<^verbatim>\<open>int\<close>: undefined\<close>
  | OutOfBounds      \<comment> \<open>\<^verbatim>\<open>elfs[i]\<close> with \<^verbatim>\<open>i >= elfs.size()\<close>: undefined\<close>

text \<open>\<^verbatim>\<open>int\<close> is the 32-bit two's complement type of the usual platforms.\<close>

definition INT_MAX :: int where
  "INT_MAX = 2147483647"

definition INT_MIN :: int where
  "INT_MIN = - 2147483648"

definition in_int :: "int \<Rightarrow> bool" where
  "in_int v \<longleftrightarrow> INT_MIN \<le> v \<and> v \<le> INT_MAX"

text \<open>The operator \<^verbatim>\<open>+=\<close> on two \<^verbatim>\<open>int\<close> values.\<close>

definition add_int :: "int \<Rightarrow> int \<Rightarrow> error + int" where
  "add_int a b = (if in_int (a + b) then Inr (a + b) else Inl SignedOverflow)"

subsection \<open>The library calls: stoi and getline\<close>

text \<open>
  \<^verbatim>\<open>std::stoi(line)\<close> in base 10 is \<^verbatim>\<open>strtol\<close> with a range check: white space of the
  "C" locale is skipped, an optional sign is read, then the longest run of decimal
  digits; what follows the digits is ignored. No digit at all throws
  \<^verbatim>\<open>invalid_argument\<close>, a value outside \<^verbatim>\<open>int\<close> throws \<^verbatim>\<open>out_of_range\<close>.
\<close>

definition isspace :: "char \<Rightarrow> bool" where
  "isspace c \<longleftrightarrow> c \<in> set [CHR '' '', CHR 0x09, CHR 0x0A, CHR 0x0B, CHR 0x0C, CHR 0x0D]"

definition isdigit :: "char \<Rightarrow> bool" where
  "isdigit c \<longleftrightarrow> c \<in> set ''0123456789''"

definition decimal :: "string \<Rightarrow> int" where
  "decimal ds = foldl (\<lambda>a c. 10 * a + (of_char c - 48)) 0 ds"

definition stoi :: "string \<Rightarrow> error + int" where
  "stoi str =
     (let s = dropWhile isspace str;
          neg = (case s of [] \<Rightarrow> False | c # _ \<Rightarrow> c = CHR ''-'');
          signed = (case s of [] \<Rightarrow> False | c # _ \<Rightarrow> c = CHR ''-'' \<or> c = CHR ''+'');
          ds = takeWhile isdigit (if signed then tl s else s);
          v = (if neg then - decimal ds else decimal ds)
      in if ds = [] then Inl InvalidArgument
         else if in_int v then Inr v
         else Inl OutOfRange)"

text \<open>
  \<^verbatim>\<open>getline(cin, line)\<close> on the unread rest of standard input: at end of input nothing
  is extracted and the stream fails (\<open>None\<close>: the \<^verbatim>\<open>while\<close> condition is false);
  otherwise the line is everything up to the next newline, and the newline is consumed.
\<close>

definition newline :: char where
  "newline = CHR 0x0A"

definition getline :: "string \<Rightarrow> (string \<times> string) option" where
  "getline s =
     (if s = [] then None
      else Some (takeWhile (\<lambda>c. c \<noteq> newline) s, drop 1 (dropWhile (\<lambda>c. c \<noteq> newline) s)))"

subsection \<open>The reading loop\<close>

text \<open>The loop's variables: the vector \<^verbatim>\<open>elfs\<close> and the accumulator \<^verbatim>\<open>count\<close>.\<close>

type_synonym state = "int list \<times> int"

text \<open>The body of the \<^verbatim>\<open>while\<close> loop, for the line just read.\<close>

definition body :: "state \<Rightarrow> string \<Rightarrow> error + state" where
  "body st line =
     (case st of (elfs, cnt) \<Rightarrow>
        if line = [] then Inr (elfs @ [cnt], 0)
        else (case stoi line of
                Inl e \<Rightarrow> Inl e
              | Inr v \<Rightarrow> (case add_int cnt v of
                           Inl e \<Rightarrow> Inl e
                         | Inr cnt' \<Rightarrow> Inr (elfs, cnt'))))"

function loop :: "state \<Rightarrow> string \<Rightarrow> error + state" where
  "loop st s =
     (case getline s of
        None \<Rightarrow> Inr st
      | Some (line, rest) \<Rightarrow>
          (case body st line of
             Inl e \<Rightarrow> Inl e
           | Inr st' \<Rightarrow> loop st' rest))"
  by pat_completeness auto
termination
proof (relation "measure (\<lambda>(st, s). length s)")
  show "wf (measure (\<lambda>(st, s). length s))"
    by simp
next
  fix st :: state and s :: string and x2 x y and st' :: state
  assume "getline s = Some x2" and "(x, y) = x2"
  then have "s \<noteq> []" and "y = drop 1 (dropWhile (\<lambda>c. c \<noteq> newline) s)"
    by (auto simp: getline_def split: if_splits)
  moreover have "length (dropWhile (\<lambda>c. c \<noteq> newline) s) \<le> length s"
    by (rule length_dropWhile_le)
  ultimately have "length y < length s"
    by (cases s) auto
  then show "((st', y), (st, s)) \<in> measure (\<lambda>(st, s). length s)"
    by simp
qed

declare loop.simps [simp del]

subsection \<open>Sorting, the top-3 window and the whole routine\<close>

text \<open>
  \<^verbatim>\<open>sort(elfs.begin(), elfs.end(), greater())\<close>: the vector in descending order. On
  integers the descending arrangement of a vector is unique, so the unstable
  \<^verbatim>\<open>std::sort\<close> has one possible result.
\<close>

definition sort_greater :: "int list \<Rightarrow> int list" where
  "sort_greater xs = rev (sort xs)"

text \<open>
  Modelled from the spec: the macro \<^verbatim>\<open>iter(i, 0, 3)\<close> comes from the header
  \<^verbatim>\<open>stdc++.h\<close>, which is not among the sources. The spec describes the statement as
  summing "the first three elements of the sorted sequence", a "fixed top-3 window",
  so \<open>iter a b\<close> lets \<open>i\<close> run over \<open>a, a + 1, ..., b - 1\<close>.
\<close>

definition iter :: "nat \<Rightarrow> nat \<Rightarrow> nat list" where
  "iter a b = [a..<b]"

text \<open>
  \<^verbatim>\<open>out += elfs[i]\<close> for each \<open>i\<close> of the window in turn. The unchecked
  \<^verbatim>\<open>operator[]\<close> is defined only below \<^verbatim>\<open>elfs.size()\<close>.
\<close>

fun window_sum :: "int list \<Rightarrow> nat list \<Rightarrow> int \<Rightarrow> error + int" where
  "window_sum elfs [] out = Inr out"
| "window_sum elfs (i # is) out =
     (if i < length elfs
      then (case add_int out (elfs ! i) of
              Inl e \<Rightarrow> Inl e
            | Inr out' \<Rightarrow> window_sum elfs is out')
      else Inl OutOfBounds)"

text \<open>
  The routine: \<open>Inr out\<close> when it reaches \<^verbatim>\<open>cout << out << endl\<close>, which writes the
  decimal digits of \<open>out\<close> and a newline, and \<open>Inl e\<close> when it stops with \<open>e\<close> before
  that. The accumulator left by the loop is not used after it.
\<close>

definition main :: "string \<Rightarrow> error + int" where
  "main input =
     (case loop ([], 0) input of
        Inl e \<Rightarrow> Inl e
      | Inr (elfs, cnt) \<Rightarrow> window_sum (sort_greater elfs) (iter 0 3) 0)"

subsection \<open>Auxiliary notions for stating properties\<close>

text \<open>
  The lines that the loop reads from an input, in order: the results of the successive
  calls of \<^verbatim>\<open>getline\<close> until the stream fails.
\<close>

function getlines :: "string \<Rightarrow> string list" where
  "getlines s =
     (case getline s of
        None \<Rightarrow> []
      | Some (line, rest) \<Rightarrow> line # getlines rest)"
  by pat_completeness auto
termination
proof (relation "measure length")
  show "wf (measure length)"
    by simp
next
  fix s :: string and x2 x y
  assume "getline s = Some x2" and "(x, y) = x2"
  then have "s \<noteq> []" and "y = drop 1 (dropWhile (\<lambda>c. c \<noteq> newline) s)"
    by (auto simp: getline_def split: if_splits)
  moreover have "length (dropWhile (\<lambda>c. c \<noteq> newline) s) \<le> length s"
    by (rule length_dropWhile_le)
  ultimately have "length y < length s"
    by (cases s) auto
  then show "(y, s) \<in> measure length"
    by simp
qed

declare getlines.simps [simp del]

text \<open>
  The loop body applied to a list of lines in turn, stopping at the first failure:
  the state of the loop after those lines (\<open>loop_scan\<close> below relates it to \<open>loop\<close>).
\<close>

fun scan_lines :: "string list \<Rightarrow> state \<Rightarrow> error + state" where
  "scan_lines [] st = Inr st"
| "scan_lines (l # ls) st =
     (case body st l of
        Inl e \<Rightarrow> Inl e
      | Inr st' \<Rightarrow> scan_lines ls st')"

text \<open>
  The spec's vocabulary. A group (block) is a run of non-blank lines; \<open>group_lines gs\<close>
  are the lines of an input made of the groups \<open>gs\<close>, each one followed by a blank
  line. The block sum of a group is the arithmetic sum of the integers on its lines
  (\<open>line_value\<close> is the integer \<^verbatim>\<open>stoi\<close> reads from a line).
\<close>

definition group_lines :: "string list list \<Rightarrow> string list" where
  "group_lines gs = concat (map (\<lambda>g. g @ [[]]) gs)"

definition line_value :: "string \<Rightarrow> int" where
  "line_value l = (case stoi l of Inl e \<Rightarrow> 0 | Inr v \<Rightarrow> v)"

definition block_sum :: "string list \<Rightarrow> int" where
  "block_sum g = sum_list (map line_value g)"

text \<open>
  The values the accumulator takes while the lines of a group are added to it,
  starting from zero: the sums of the non-empty prefixes of the group.
\<close>

definition running_sums :: "string list \<Rightarrow> int list" where
  "running_sums g = map (\<lambda>k. block_sum (take k g)) [1..<Suc (length g)]"

text \<open>
  The spec's "three largest block sums": \<open>best\<close> holds three of the block sums \<open>bs\<close>,
  and each of the block sums left over is at most each of them.
\<close>

definition three_largest :: "int list \<Rightarrow> int list \<Rightarrow> bool" where
  "three_largest bs best \<longleftrightarrow>
     length best = 3 \<and> mset best \<subseteq># mset bs \<and>
     (\<forall>x\<in>#mset bs - mset best. \<forall>y\<in>set best. x \<le> y)"

text \<open>
  The sums that the lines \<open>g\<close> followed by a blank line record when the loop reads them
  with the accumulator at zero; \<open>None\<close> when a line of \<open>g\<close> makes the routine stop.
\<close>

definition chunk_sums :: "string list \<Rightarrow> int list option" where
  "chunk_sums g =
     (case scan_lines (g @ [[]]) ([], 0) of
        Inl e \<Rightarrow> None
      | Inr (elfs, cnt) \<Rightarrow> Some elfs)"

text \<open>What a run leaves on standard output: the number printed, if any.\<close>

definition printed :: "error + int \<Rightarrow> int option" where
  "printed r = (case r of Inl e \<Rightarrow> None | Inr out \<Rightarrow> Some out)"

section \<open>Basic facts\<close>

subsection \<open>Reading lines\<close>

lemma getline_Nil: "getline [] = None"
  by (simp add: getline_def)

lemma getline_newline: "getline (newline # s) = Some ([], s)"
  by (simp add: getline_def)

lemma getline_Some_nonempty: "getline s = Some p \<Longrightarrow> s \<noteq> []"
  by (auto simp: getline_def split: if_splits)

lemma getlines_Nil: "getlines [] = []"
  by (simp add: getlines.simps getline_Nil)

lemma getline_append:
  assumes "getline s = Some (l, r)" and "last s = newline"
  shows "getline (s @ t) = Some (l, r @ t)"
proof -
  let ?P = "\<lambda>c. c \<noteq> newline"
  from assms(1) have ne: "s \<noteq> []"
    by (rule getline_Some_nonempty)
  with assms(2) have "newline \<in> set s"
    using last_in_set by metis
  then have "takeWhile ?P (s @ t) = takeWhile ?P s"
    and "dropWhile ?P (s @ t) = dropWhile ?P s @ t"
    and "dropWhile ?P s \<noteq> []"
    by auto
  moreover from assms(1) ne have "l = takeWhile ?P s" and "r = drop 1 (dropWhile ?P s)"
    by (auto simp: getline_def)
  ultimately show ?thesis
    using ne by (cases "dropWhile ?P s") (auto simp: getline_def)
qed

lemma getline_rest_last:
  assumes "getline s = Some (l, r)" and "last s = newline" and "r \<noteq> []"
  shows "last r = newline"
proof -
  let ?P = "\<lambda>c. c \<noteq> newline"
  from assms(1) have r: "r = drop 1 (dropWhile ?P s)"
    by (auto simp: getline_def split: if_splits)
  with assms(3) obtain c where d: "dropWhile ?P s = c # r"
    by (cases "dropWhile ?P s") auto
  have "s = takeWhile ?P s @ dropWhile ?P s"
    by simp
  with d have "s = takeWhile ?P s @ c # r"
    by simp
  then have "last s = last r"
    using assms(3) by (metis last_appendR last_ConsR list.distinct(1))
  with assms(2) show ?thesis
    by simp
qed

lemma getlines_append:
  "s = [] \<or> last s = newline \<Longrightarrow> getlines (s @ t) = getlines s @ getlines t"
proof (induction s rule: getlines.induct)
  case (1 s)
  show ?case
  proof (cases "getline s")
    case None
    then have "s = []"
      by (auto simp: getline_def split: if_splits)
    then show ?thesis
      by (simp add: getlines_Nil)
  next
    case (Some p)
    obtain l r where p: "p = (l, r)"
      by (cases p)
    from Some have ne: "s \<noteq> []"
      by (rule getline_Some_nonempty)
    with "1.prems" have last: "last s = newline"
      by simp
    from Some p last have app: "getline (s @ t) = Some (l, r @ t)"
      by (simp add: getline_append)
    have "r = [] \<or> last r = newline"
      using getline_rest_last [of s l r] Some p last by auto
    with "1.IH" [OF Some p [symmetric]] have "getlines (r @ t) = getlines r @ getlines t"
      by simp
    with Some p app show ?thesis
      by (simp add: getlines.simps [of s] getlines.simps [of "s @ t"])
  qed
qed

subsection \<open>The loop as a scan of the lines\<close>

lemma loop_Nil: "loop st [] = Inr st"
  by (simp add: loop.simps getline_Nil)

lemma loop_scan: "loop st s = scan_lines (getlines s) st"
proof (induction st s rule: loop.induct)
  case (1 st s)
  show ?case
  proof (cases "getline s")
    case None
    then show ?thesis
      by (simp add: loop.simps [of st s] getlines.simps [of s])
  next
    case (Some p)
    obtain line rest where p: "p = (line, rest)"
      by (cases p)
    from Some p have g: "getline s = Some (line, rest)"
      by simp
    show ?thesis
    proof (cases "body st line")
      case (Inl e)
      with g show ?thesis
        by (simp add: loop.simps [of st s] getlines.simps [of s])
    next
      case (Inr st')
      have "loop st' rest = scan_lines (getlines rest) st'"
        by (rule "1.IH" [OF g refl Inr])
      with g Inr show ?thesis
        by (simp add: loop.simps [of st s] getlines.simps [of s])
    qed
  qed
qed

lemma scan_lines_append:
  "scan_lines (xs @ ys) st =
     (case scan_lines xs st of Inl e \<Rightarrow> Inl e | Inr st' \<Rightarrow> scan_lines ys st')"
  by (induction xs arbitrary: st) (auto split: sum.splits)

text \<open>The loop passes through the state reached after the first \<open>k\<close> lines.\<close>

lemma loop_after_lines:
  "loop st input =
     (case scan_lines (take k (getlines input)) st of
        Inl e \<Rightarrow> Inl e
      | Inr st' \<Rightarrow> scan_lines (drop k (getlines input)) st')"
  using scan_lines_append [of "take k (getlines input)" "drop k (getlines input)" st]
  by (simp add: loop_scan)

subsection \<open>The loop body\<close>

lemma in_int_0: "in_int 0"
  by (simp add: in_int_def INT_MIN_def INT_MAX_def)

lemma add_int_Inr: "add_int a b = Inr c \<longleftrightarrow> in_int (a + b) \<and> c = a + b"
  by (auto simp: add_int_def)

lemma stoi_Nil: "stoi [] = Inl InvalidArgument"
  by (simp add: stoi_def)

lemma stoi_Inr_nonempty: "stoi l = Inr v \<Longrightarrow> l \<noteq> []"
  by (auto simp: stoi_Nil)

lemma body_blank: "body (elfs, cnt) [] = Inr (elfs @ [cnt], 0)"
  by (simp add: body_def)

lemma body_integer:
  "stoi l = Inr v \<Longrightarrow>
   body (elfs, cnt) l = (if in_int (cnt + v) then Inr (elfs, cnt + v) else Inl SignedOverflow)"
  by (auto simp: body_def add_int_def dest: stoi_Inr_nonempty)

lemma body_nonblank_Inr:
  assumes "l \<noteq> []" and "body (elfs0, c0) l = Inr (elfs, cnt)"
  shows "elfs = elfs0 \<and> cnt = c0 + line_value l \<and> stoi l = Inr (line_value l)"
  using assms by (auto simp: body_def add_int_Inr line_value_def split: sum.splits)

lemma body_in_int:
  assumes "body (elfs0, c0) l = Inr (elfs, cnt)" and "\<forall>x\<in>set elfs0. in_int x" and "in_int c0"
  shows "(\<forall>x\<in>set elfs. in_int x) \<and> in_int cnt"
  using assms by (auto simp: body_def add_int_Inr in_int_0 split: if_splits sum.splits)

lemma body_prefix:
  "body (e0 @ e1, c) l =
     (case body (e1, c) l of Inl e \<Rightarrow> Inl e | Inr (e', c') \<Rightarrow> Inr (e0 @ e', c'))"
  by (simp add: body_def split: sum.splits)

lemma loop_newline: "loop (elfs, cnt) (newline # s) = loop (elfs @ [cnt], 0) s"
  by (simp add: loop.simps [of _ "newline # s"] getline_newline body_blank)

text \<open>Input that ends at a line boundary can be read first, the rest afterwards.\<close>

lemma loop_append:
  "pre = [] \<or> last pre = newline \<Longrightarrow>
   loop st (pre @ s) = (case loop st pre of Inl e \<Rightarrow> Inl e | Inr st' \<Rightarrow> loop st' s)"
  by (simp add: loop_scan getlines_append scan_lines_append split: sum.splits)

lemma loop_blank_lines:
  "loop (elfs, cnt) (replicate (Suc k) newline @ rest) =
   loop (elfs @ cnt # replicate k 0, 0) rest"
proof (induction k arbitrary: elfs cnt)
  case 0
  show ?case
    by (simp add: loop_newline)
next
  case (Suc k)
  have "loop (elfs, cnt) (replicate (Suc (Suc k)) newline @ rest) =
        loop (elfs @ [cnt], 0) (replicate (Suc k) newline @ rest)"
    by (simp add: loop_newline)
  also have "\<dots> = loop ((elfs @ [cnt]) @ 0 # replicate k 0, 0) rest"
    by (rule Suc.IH)
  finally show ?case
    by simp
qed

subsection \<open>Invariants of the scan\<close>

lemma scan_lines_length:
  "scan_lines ls (elfs0, c0) = Inr (elfs, cnt) \<Longrightarrow>
   length elfs = length elfs0 + length (filter (\<lambda>l. l = []) ls)"
proof (induction ls arbitrary: elfs0 c0)
  case Nil
  then show ?case by simp
next
  case (Cons l ls)
  show ?case
  proof (cases "l = []")
    case True
    with Cons.prems have "scan_lines ls (elfs0 @ [c0], 0) = Inr (elfs, cnt)"
      by (simp add: body_blank)
    from Cons.IH [OF this] True show ?thesis
      by simp
  next
    case False
    with Cons.prems obtain c1 where "scan_lines ls (elfs0, c1) = Inr (elfs, cnt)"
      by (auto simp: body_def split: sum.splits)
    from Cons.IH [OF this] False show ?thesis
      by simp
  qed
qed

text \<open>Every recorded sum and the accumulator are values of type \<^verbatim>\<open>int\<close>.\<close>

lemma scan_lines_in_int:
  "scan_lines ls (elfs0, c0) = Inr (elfs, cnt) \<Longrightarrow> \<forall>x\<in>set elfs0. in_int x \<Longrightarrow> in_int c0 \<Longrightarrow>
   (\<forall>x\<in>set elfs. in_int x) \<and> in_int cnt"
proof (induction ls arbitrary: elfs0 c0)
  case Nil
  then show ?case by simp
next
  case (Cons l ls)
  from Cons.prems(1) obtain elfs1 c1 where b: "body (elfs0, c0) l = Inr (elfs1, c1)"
    and s: "scan_lines ls (elfs1, c1) = Inr (elfs, cnt)"
    by (auto split: sum.splits)
  from body_in_int [OF b Cons.prems(2,3)] have "\<forall>x\<in>set elfs1. in_int x" and "in_int c1"
    by simp_all
  with Cons.IH [OF s] show ?case
    by simp
qed

lemma loop_in_int:
  assumes "loop ([], 0) input = Inr (elfs, cnt)"
  shows "\<forall>x\<in>set elfs. in_int x"
  using scan_lines_in_int [of "getlines input" "[]" 0 elfs cnt] assms
  by (simp add: loop_scan in_int_0)

text \<open>Non-blank lines leave the vector alone and add their values to the accumulator.\<close>

lemma scan_nonblank:
  "[] \<notin> set ls \<Longrightarrow> scan_lines ls (elfs0, c0) = Inr (elfs, cnt) \<Longrightarrow>
   elfs = elfs0 \<and> cnt = c0 + block_sum ls"
proof (induction ls arbitrary: c0)
  case Nil
  then show ?case by (simp add: block_sum_def)
next
  case (Cons l ls)
  from Cons.prems have l: "l \<noteq> []" and ls: "[] \<notin> set ls"
    by auto
  from Cons.prems(2) obtain st1 where b: "body (elfs0, c0) l = Inr st1"
    and s: "scan_lines ls st1 = Inr (elfs, cnt)"
    by (auto split: sum.splits)
  from b l have st1: "st1 = (elfs0, c0 + line_value l)"
    using body_nonblank_Inr [of l elfs0 c0 "fst st1" "snd st1"] by (cases st1) simp
  from Cons.IH [OF ls s [unfolded st1]] show ?case
    by (simp add: block_sum_def)
qed

text \<open>What is already in the vector has no influence on what a scan appends to it.\<close>

lemma scan_lines_prefix:
  "scan_lines ls (e0 @ e1, c) =
     (case scan_lines ls (e1, c) of Inl e \<Rightarrow> Inl e | Inr (e', c') \<Rightarrow> Inr (e0 @ e', c'))"
proof (induction ls arbitrary: e1 c)
  case Nil
  show ?case by simp
next
  case (Cons l ls)
  show ?case
  proof (cases "body (e1, c) l")
    case (Inl e)
    then show ?thesis
      by (simp add: body_prefix [of e0 e1 c l])
  next
    case (Inr st)
    obtain e' c' where st: "st = (e', c')" by (cases st)
    with Inr Cons.IH [of e' c'] show ?thesis
      by (simp add: body_prefix [of e0 e1 c l])
  qed
qed

lemma scan_lines_from_Nil:
  "scan_lines ls (e0, c) =
     (case scan_lines ls ([], c) of Inl e \<Rightarrow> Inl e | Inr (e', c') \<Rightarrow> Inr (e0 @ e', c'))"
  using scan_lines_prefix [of ls e0 "[]" c] by simp

lemma scan_blank_last:
  assumes "scan_lines (g @ [[]]) st = Inr (e, c)"
  shows "c = 0"
proof -
  from assms obtain st1 where "scan_lines g st = Inr st1" and "body st1 [] = Inr (e, c)"
    by (auto simp: scan_lines_append split: sum.splits)
  then show ?thesis
    by (cases st1) (simp add: body_blank)
qed

subsection \<open>Scanning groups\<close>

lemma group_lines_Cons: "group_lines (g # gs) = (g @ [[]]) @ group_lines gs"
  by (simp add: group_lines_def)

lemma running_sums_in_int:
  assumes "\<forall>c\<in>set (running_sums g). in_int c" and "k \<le> length g"
  shows "in_int (block_sum (take k g))"
proof (cases "k = 0")
  case True
  then show ?thesis
    by (simp add: block_sum_def in_int_0)
next
  case False
  with assms(2) have "k \<in> set [1..<Suc (length g)]"
    by auto
  then have "block_sum (take k g) \<in> set (running_sums g)"
    unfolding running_sums_def set_map by (rule imageI)
  with assms(1) show ?thesis
    by blast
qed

lemma scan_group:
  assumes "\<forall>l\<in>set g. \<exists>v. stoi l = Inr v"
    and "\<forall>k\<le>length g. in_int (c + block_sum (take k g))"
  shows "scan_lines g (elfs, c) = Inr (elfs, c + block_sum g)"
  using assms
proof (induction g arbitrary: c)
  case Nil
  show ?case by (simp add: block_sum_def)
next
  case (Cons l g)
  from Cons.prems(1) obtain v where v: "stoi l = Inr v"
    by auto
  then have lv: "line_value l = v"
    by (simp add: line_value_def)
  from Cons.prems(2) [rule_format, of 1] lv have "in_int (c + v)"
    by (simp add: block_sum_def)
  with v have b: "body (elfs, c) l = Inr (elfs, c + v)"
    by (simp add: body_integer)
  have "\<forall>k\<le>length g. in_int (c + v + block_sum (take k g))"
  proof (intro allI impI)
    fix k assume "k \<le> length g"
    with Cons.prems(2) [rule_format, of "Suc k"] lv show "in_int (c + v + block_sum (take k g))"
      by (simp add: block_sum_def add.assoc)
  qed
  with Cons.IH [of "c + v"] Cons.prems(1)
  have "scan_lines g (elfs, c + v) = Inr (elfs, c + v + block_sum g)"
    by simp
  with b lv show ?case
    by (simp add: block_sum_def add.assoc)
qed

lemma scan_groups:
  assumes "\<forall>g\<in>set gs. \<forall>l\<in>set g. \<exists>v. stoi l = Inr v"
    and "\<forall>g\<in>set gs. \<forall>k\<le>length g. in_int (block_sum (take k g))"
  shows "scan_lines (group_lines gs) (elfs, 0) = Inr (elfs @ map block_sum gs, 0)"
  using assms
proof (induction gs arbitrary: elfs)
  case Nil
  show ?case by (simp add: group_lines_def)
next
  case (Cons g gs)
  from Cons.prems have "scan_lines g (elfs, 0) = Inr (elfs, 0 + block_sum g)"
    by (intro scan_group) simp_all
  moreover from Cons.prems have "scan_lines (group_lines gs) (elfs @ [block_sum g], 0) =
      Inr ((elfs @ [block_sum g]) @ map block_sum gs, 0)"
    by (intro Cons.IH) simp_all
  ultimately show ?case
    by (simp add: group_lines_Cons scan_lines_append body_blank)
qed

lemma chunk_Some:
  assumes "chunk_sums g = Some r"
  shows "scan_lines (g @ [[]]) (e0, 0) = Inr (e0 @ r, 0)"
proof -
  from assms obtain c where s: "scan_lines (g @ [[]]) ([], 0) = Inr (r, c)"
    by (auto simp: chunk_sums_def split: sum.splits)
  then have "c = 0"
    by (rule scan_blank_last)
  with s show ?thesis
    by (simp add: scan_lines_from_Nil [of "g @ [[]]" e0])
qed

lemma chunk_None:
  assumes "chunk_sums g = None"
  shows "\<exists>e. scan_lines (g @ [[]]) (e0, 0) = Inl e"
proof -
  from assms obtain e where "scan_lines (g @ [[]]) ([], 0) = Inl e"
    by (auto simp: chunk_sums_def split: sum.splits)
  then show ?thesis
    by (simp add: scan_lines_from_Nil [of "g @ [[]]" e0])
qed

lemma scan_chunks_Some:
  assumes "\<forall>g\<in>set gs. chunk_sums g \<noteq> None"
  shows "scan_lines (group_lines gs) (e0, 0) =
    Inr (e0 @ concat (map (\<lambda>g. the (chunk_sums g)) gs), 0)"
  using assms
proof (induction gs arbitrary: e0)
  case Nil
  show ?case by (simp add: group_lines_def)
next
  case (Cons g gs)
  from Cons.prems obtain r where r: "chunk_sums g = Some r"
    by auto
  from Cons.prems have "scan_lines (group_lines gs) (e0 @ r, 0) =
      Inr ((e0 @ r) @ concat (map (\<lambda>g. the (chunk_sums g)) gs), 0)"
    by (intro Cons.IH) simp
  with r chunk_Some [OF r, of e0] show ?case
    by (simp add: group_lines_Cons scan_lines_append del: append_assoc)
qed

lemma scan_chunks_None:
  assumes "\<exists>g\<in>set gs. chunk_sums g = None"
  shows "\<exists>e. scan_lines (group_lines gs) (e0, 0) = Inl e"
  using assms
proof (induction gs arbitrary: e0)
  case Nil
  then show ?case by simp
next
  case (Cons g gs)
  show ?case
  proof (cases "chunk_sums g")
    case None
    from chunk_None [OF None, of e0] show ?thesis
      by (auto simp: group_lines_Cons scan_lines_append simp del: append_assoc)
  next
    case (Some r)
    with Cons.prems have "\<exists>g\<in>set gs. chunk_sums g = None"
      by auto
    from Cons.IH [OF this, of "e0 @ r"] chunk_Some [OF Some, of e0] show ?thesis
      by (auto simp: group_lines_Cons scan_lines_append simp del: append_assoc)
  qed
qed

lemma printed_main_groups_Some:
  assumes "getlines input = group_lines gs @ t"
    and "\<forall>g\<in>set gs. chunk_sums g \<noteq> None"
  shows "printed (main input) =
     (case scan_lines t ([], 0) of
        Inl e \<Rightarrow> None
      | Inr (et, c) \<Rightarrow>
          printed (window_sum (sort_greater (concat (map (\<lambda>g. the (chunk_sums g)) gs) @ et))
            (iter 0 3) 0))"
proof -
  let ?r = "concat (map (\<lambda>g. the (chunk_sums g)) gs)"
  from assms(2) have "scan_lines (group_lines gs) ([], 0) = Inr (?r, 0)"
    using scan_chunks_Some [of gs "[]"] by simp
  with assms(1) have "loop ([], 0) input = scan_lines t (?r, 0)"
    by (simp add: loop_scan scan_lines_append)
  also have "\<dots> =
      (case scan_lines t ([], 0) of Inl e \<Rightarrow> Inl e | Inr (e', c') \<Rightarrow> Inr (?r @ e', c'))"
    by (rule scan_lines_from_Nil)
  finally show ?thesis
    by (simp add: main_def printed_def split: sum.splits)
qed

lemma printed_main_groups_None:
  assumes "getlines input = group_lines gs @ t"
    and "\<exists>g\<in>set gs. chunk_sums g = None"
  shows "printed (main input) = None"
proof -
  from scan_chunks_None [OF assms(2), of "[]"]
  obtain e where "scan_lines (group_lines gs) ([], 0) = Inl e"
    by blast
  with assms(1) have "loop ([], 0) input = Inl e"
    by (simp add: loop_scan scan_lines_append)
  then show ?thesis
    by (simp add: main_def printed_def)
qed

subsection \<open>Sorting and the window\<close>

lemma iter_0_3: "iter 0 3 = [0, 1, 2]"
  by (simp add: iter_def upt_rec)

lemma length_sort_greater: "length (sort_greater xs) = length xs"
  by (simp add: sort_greater_def)

lemma mset_sort_greater: "mset (sort_greater xs) = mset xs"
  by (simp add: sort_greater_def)

lemma set_sort_greater: "set (sort_greater xs) = set xs"
  by (simp add: sort_greater_def)

lemma sum_list_sort_greater: "sum_list (sort_greater xs) = sum_list xs"
  by (metis mset_sort_greater sum_mset_sum_list)

lemma sorted_rev_sort_greater: "sorted (rev (sort_greater xs))"
  by (simp add: sort_greater_def)

text \<open>A vector of integers has one descending arrangement.\<close>

lemma sort_greater_unique:
  assumes "mset ys = mset xs" and "sorted (rev ys)"
  shows "sort_greater xs = ys"
proof -
  from assms have "sort xs = rev ys"
    by (intro properties_for_sort) simp_all
  then show ?thesis
    by (simp add: sort_greater_def)
qed

lemma sort_greater_cong: "mset xs = mset ys \<Longrightarrow> sort_greater xs = sort_greater ys"
  by (intro sort_greater_unique) (simp_all add: mset_sort_greater sorted_rev_sort_greater)

lemma mset_concat_map_cong:
  assumes "mset gs' = mset gs"
  shows "mset (concat (map f gs')) = mset (concat (map f gs))"
proof -
  have "mset (concat (map f xs)) = sum_mset (image_mset (\<lambda>g. mset (f g)) (mset xs))" for xs
    by (induction xs) simp_all
  with assms show ?thesis
    by simp
qed

text \<open>The first three entries of the sorted vector are the three largest sums.\<close>

lemma three_largest_sort_greater:
  assumes "three_largest bs best"
  shows "take 3 (sort_greater bs) = sort_greater best"
proof -
  from assms have len: "length best = 3" and sub: "mset best \<subseteq># mset bs"
    and le: "\<forall>x\<in>#mset bs - mset best. \<forall>y\<in>set best. x \<le> y"
    by (simp_all add: three_largest_def)
  obtain rest where rest: "mset rest = mset bs - mset best"
    using ex_mset by blast
  let ?ys = "sort_greater best @ sort_greater rest"
  from rest sub have "mset ?ys = mset bs"
    by (simp add: mset_sort_greater)
  moreover from le rest have "\<forall>x\<in>set rest. \<forall>y\<in>set best. x \<le> y"
    by (metis set_mset_mset)
  then have "sorted (rev ?ys)"
    by (auto simp: sort_greater_def sorted_append)
  ultimately have "sort_greater bs = ?ys"
    by (rule sort_greater_unique)
  with len show ?thesis
    by (simp add: length_sort_greater)
qed

lemma three_largest_take: "3 \<le> length bs \<Longrightarrow> three_largest bs (take 3 (sort_greater bs))"
proof -
  assume len: "3 \<le> length bs"
  let ?ys = "sort_greater bs"
  have split: "mset bs = mset (take 3 ?ys) + mset (drop 3 ?ys)"
    by (metis append_take_drop_id mset_append mset_sort_greater)
  have "sorted (rev (take 3 ?ys @ drop 3 ?ys))"
    by (simp add: sorted_rev_sort_greater)
  then have "\<forall>x\<in>set (drop 3 ?ys). \<forall>y\<in>set (take 3 ?ys). x \<le> y"
    by (simp only: rev_append sorted_append set_rev) blast
  moreover from split have "mset bs - mset (take 3 ?ys) = mset (drop 3 ?ys)"
    by simp
  ultimately show ?thesis
    using len split by (simp add: three_largest_def length_sort_greater)
qed

lemma window_sum_short:
  assumes "length ys < 3" and "\<forall>x\<in>set ys. in_int x"
  shows "window_sum ys (iter 0 3) 0 =
    (if length ys = 2 \<and> \<not> in_int (sum_list ys) then Inl SignedOverflow else Inl OutOfBounds)"
proof -
  consider "ys = []" | a where "ys = [a]" | a b where "ys = [a, b]"
    using assms(1) by (cases ys rule: list.exhaust; cases "tl ys"; cases "tl (tl ys)") auto
  then show ?thesis
  proof cases
    case 1
    then show ?thesis by (simp add: iter_0_3)
  next
    case 2
    with assms(2) show ?thesis by (simp add: iter_0_3 add_int_def)
  next
    case 3
    with assms(2) show ?thesis by (simp add: iter_0_3 add_int_def)
  qed
qed

lemma window_sum_top3:
  assumes "3 \<le> length ys" and "in_int (ys ! 0)"
  shows "window_sum ys (iter 0 3) 0 =
    (if in_int (sum_list (take 2 ys)) \<and> in_int (sum_list (take 3 ys))
     then Inr (sum_list (take 3 ys)) else Inl SignedOverflow)"
proof -
  from assms(1) obtain a b c zs where ys: "ys = a # b # c # zs"
    by (cases ys; cases "tl ys"; cases "tl (tl ys)") auto
  with assms(2) show ?thesis
    by (simp add: iter_0_3 add_int_def add.assoc)
qed

section \<open>The claims\<close>

subsection \<open>C1: the sum of the three largest block sums\<close>

text \<open>
  Claim C1 says that for every input whose groups are each terminated by a blank line
  and that records at least three block sums, the program prints the sum of the three
  largest block sums. As stated this fails where an \<^verbatim>\<open>int\<close> addition overflows: three
  groups that each hold 2147483647 are recorded, but adding the second sum to the
  first in \<^verbatim>\<open>out\<close> leaves the type \<^verbatim>\<open>int\<close>, and the printed value cannot be the sum
  6442450941.
\<close>

theorem C1_counterexample:
  "getlines ''2147483647\<newline>\<newline>2147483647\<newline>\<newline>2147483647\<newline>\<newline>'' =
     group_lines [[''2147483647''], [''2147483647''], [''2147483647'']] \<and>
   loop ([], 0) ''2147483647\<newline>\<newline>2147483647\<newline>\<newline>2147483647\<newline>\<newline>'' =
     Inr ([2147483647, 2147483647, 2147483647], 0) \<and>
   main ''2147483647\<newline>\<newline>2147483647\<newline>\<newline>2147483647\<newline>\<newline>'' = Inl SignedOverflow"
  by code_simp

text \<open>
  Claim C1, amended: take an input whose lines are those of groups \<open>gs\<close>, each
  terminated by a blank line, where \<^verbatim>\<open>stoi\<close> reads an integer from every line of every
  group, and let \<open>best\<close> be three largest of the block sums (so at least three are
  recorded). If no \<^verbatim>\<open>int\<close> addition overflows, that is, the running sums of each
  group, the sum of the two largest of \<open>best\<close> and the sum of all three are values of
  \<^verbatim>\<open>int\<close>, then the loop records exactly the block sums of the groups and the program
  prints the sum of the three largest.
\<close>

theorem C1_top_three:
  assumes "getlines input = group_lines gs"
    and "\<forall>g\<in>set gs. \<forall>l\<in>set g. stoi l = Inr (line_value l)"
    and "\<forall>g\<in>set gs. \<forall>c\<in>set (running_sums g). in_int c"
    and "three_largest (map block_sum gs) best"
    and "in_int (sum_list (take 2 (sort_greater best)))"
    and "in_int (sum_list best)"
  shows "loop ([], 0) input = Inr (map block_sum gs, 0) \<and> main input = Inr (sum_list best)"
proof -
  let ?bs = "map block_sum gs"
  let ?ys = "sort_greater ?bs"
  from assms(2) have ints: "\<forall>g\<in>set gs. \<forall>l\<in>set g. \<exists>v. stoi l = Inr v"
    by blast
  from assms(3) have acc: "\<forall>g\<in>set gs. \<forall>k\<le>length g. in_int (block_sum (take k g))"
    by (blast intro: running_sums_in_int)
  from assms(1) scan_groups [OF ints acc, of "[]"]
  have l: "loop ([], 0) input = Inr (?bs, 0)"
    by (simp add: loop_scan)
  from assms(4) have t: "take 3 ?ys = sort_greater best" and len: "length best = 3"
    by (simp_all add: three_largest_sort_greater) (simp add: three_largest_def)
  then have "length (take 3 ?ys) = 3"
    by (simp add: length_sort_greater)
  then have three: "3 \<le> length ?ys"
    by simp
  then have "0 < length ?ys"
    by auto
  then have "?ys ! 0 \<in> set ?ys"
    by (rule nth_mem)
  then have "?ys ! 0 \<in> set ?bs"
    by (simp only: set_sort_greater)
  with loop_in_int [OF l] have "in_int (?ys ! 0)"
    by blast
  moreover have "take 2 ?ys = take 2 (take 3 ?ys)"
    by simp
  ultimately have "window_sum ?ys (iter 0 3) 0 = Inr (sum_list (sort_greater best))"
    using window_sum_top3 [OF three] assms(5,6) t
    by (simp add: sum_list_sort_greater del: take_take)
  with l show ?thesis
    by (simp add: main_def sum_list_sort_greater)
qed

theorem C1_top_three_witness:
  "getlines ''1\<newline>2\<newline>\<newline>10\<newline>\<newline>\<newline>5\<newline>-1\<newline>\<newline>7\<newline>\<newline>'' =
     group_lines [[''1'', ''2''], [''10''], [], [''5'', ''-1''], [''7'']] \<and>
   map block_sum [[''1'', ''2''], [''10''], [], [''5'', ''-1''], [''7'']] = [3, 10, 0, 4, 7] \<and>
   loop ([], 0) ''1\<newline>2\<newline>\<newline>10\<newline>\<newline>\<newline>5\<newline>-1\<newline>\<newline>7\<newline>\<newline>'' = Inr ([3, 10, 0, 4, 7], 0) \<and>
   main ''1\<newline>2\<newline>\<newline>10\<newline>\<newline>\<newline>5\<newline>-1\<newline>\<newline>7\<newline>\<newline>'' = Inr (sum_list [7, 10, 4])"
proof -
  let ?input = "''1\<newline>2\<newline>\<newline>10\<newline>\<newline>\<newline>5\<newline>-1\<newline>\<newline>7\<newline>\<newline>''"
  let ?gs = "[[''1'', ''2''], [''10''], [], [''5'', ''-1''], [''7'']]"
  have a: "getlines ?input = group_lines ?gs"
    by code_simp
  have b: "\<forall>g\<in>set ?gs. \<forall>l\<in>set g. stoi l = Inr (line_value l)"
    by code_simp
  have c: "\<forall>g\<in>set ?gs. \<forall>c\<in>set (running_sums g). in_int c"
    by code_simp
  have m: "map block_sum ?gs = [3, 10, 0, 4, 7]"
    by code_simp
  have t: "three_largest [3, 10, 0, 4, 7] [7, 10, 4]"
    by (simp add: three_largest_def)
  from t m have d: "three_largest (map block_sum ?gs) [7, 10, 4]"
    by simp
  have e: "in_int (sum_list (take 2 (sort_greater [7, 10, 4])))"
    by code_simp
  have f: "in_int (sum_list [7, 10, 4])"
    by code_simp
  from a m C1_top_three [OF a b c d e f] show ?thesis
    by simp
qed

subsection \<open>C2: the example input of the spec\<close>

text \<open>
  Claim C2 expects the output 72 for the input with the lines 3, 4, blank, 5, blank,
  10, 20, 30, where no blank line follows the last line. On that input the loop ends
  with only the sums 7 and 5 in \<open>elfs\<close>; the sum 60 of the last group is still in the
  accumulator and is never pushed. The window then reads \<open>elfs[2]\<close> of a vector of
  two elements, so the routine runs into undefined behaviour instead of printing 72.
  With one more blank line at the end the three sums are recorded and 72 is printed.
\<close>

theorem C2_example_input_out_of_bounds:
  "loop ([], 0) ''3\<newline>4\<newline>\<newline>5\<newline>\<newline>10\<newline>20\<newline>30\<newline>'' = Inr ([7, 5], 60) \<and>
   main ''3\<newline>4\<newline>\<newline>5\<newline>\<newline>10\<newline>20\<newline>30\<newline>'' = Inl OutOfBounds \<and>
   main ''3\<newline>4\<newline>\<newline>5\<newline>\<newline>10\<newline>20\<newline>30\<newline>\<newline>'' = Inr 72"
  by code_simp

subsection \<open>C3: the final group without a blank line is dropped\<close>

text \<open>
  Claim C3: for every input that ends with a non-blank line, the final group (the
  accumulator at end of stream) is not recorded as a block sum and takes no part in
  the top-three selection. Split the input at a line boundary into \<open>pre\<close> and a tail
  without blank lines (the final group, when \<open>pre\<close> ends with a blank line or is
  empty). Whenever the scan of the whole input completes, the recorded sums are exactly
  those recorded for \<open>pre\<close> alone, the sum of the tail is left in the accumulator, and
  the outcome of the routine is its outcome on \<open>pre\<close>.
\<close>

theorem C3_final_group_not_recorded:
  assumes "pre = [] \<or> last pre = newline"
    and "[] \<notin> set (getlines tail)"
    and "loop ([], 0) (pre @ tail) = Inr (elfs, cnt)"
  shows "(\<exists>c0. loop ([], 0) pre = Inr (elfs, c0) \<and> cnt = c0 + block_sum (getlines tail)) \<and>
         main (pre @ tail) = main pre"
proof -
  from assms(1) have "getlines (pre @ tail) = getlines pre @ getlines tail"
    by (rule getlines_append)
  with assms(3) have "(case scan_lines (getlines pre) ([], 0) of
      Inl e \<Rightarrow> Inl e | Inr st' \<Rightarrow> scan_lines (getlines tail) st') = Inr (elfs, cnt)"
    by (simp add: loop_scan scan_lines_append)
  then obtain elfs0 c0 where p: "scan_lines (getlines pre) ([], 0) = Inr (elfs0, c0)"
    and t: "scan_lines (getlines tail) (elfs0, c0) = Inr (elfs, cnt)"
    by (auto split: sum.splits)
  from scan_nonblank [OF assms(2) t]
  have e: "elfs = elfs0" and c: "cnt = c0 + block_sum (getlines tail)"
    by simp_all
  from p e have l: "loop ([], 0) pre = Inr (elfs, c0)"
    by (simp add: loop_scan)
  with assms(3) have "main (pre @ tail) = main pre"
    by (simp add: main_def)
  with l c show ?thesis
    by blast
qed

theorem C3_final_group_not_recorded_witness:
  "(''1\<newline>\<newline>2\<newline>\<newline>3\<newline>\<newline>'' = [] \<or> last ''1\<newline>\<newline>2\<newline>\<newline>3\<newline>\<newline>'' = newline) \<and>
   [] \<notin> set (getlines ''100\<newline>200'') \<and>
   loop ([], 0) (''1\<newline>\<newline>2\<newline>\<newline>3\<newline>\<newline>'' @ ''100\<newline>200'') = Inr ([1, 2, 3], 300) \<and>
   loop ([], 0) ''1\<newline>\<newline>2\<newline>\<newline>3\<newline>\<newline>'' = Inr ([1, 2, 3], 0) \<and>
   main (''1\<newline>\<newline>2\<newline>\<newline>3\<newline>\<newline>'' @ ''100\<newline>200'') = main ''1\<newline>\<newline>2\<newline>\<newline>3\<newline>\<newline>'' \<and>
   main ''1\<newline>\<newline>2\<newline>\<newline>3\<newline>\<newline>'' = Inr 6"
proof -
  have a: "''1\<newline>\<newline>2\<newline>\<newline>3\<newline>\<newline>'' = [] \<or> last ''1\<newline>\<newline>2\<newline>\<newline>3\<newline>\<newline>'' = newline"
    by code_simp
  have b: "[] \<notin> set (getlines ''100\<newline>200'')"
    by code_simp
  have c: "loop ([], 0) (''1\<newline>\<newline>2\<newline>\<newline>3\<newline>\<newline>'' @ ''100\<newline>200'') = Inr ([1, 2, 3], 300)"
    by code_simp
  have d: "loop ([], 0) ''1\<newline>\<newline>2\<newline>\<newline>3\<newline>\<newline>'' = Inr ([1, 2, 3], 0)"
    by code_simp
  have e: "main ''1\<newline>\<newline>2\<newline>\<newline>3\<newline>\<newline>'' = Inr 6"
    by code_simp
  from C3_final_group_not_recorded [OF a b c]
  have "main (''1\<newline>\<newline>2\<newline>\<newline>3\<newline>\<newline>'' @ ''100\<newline>200'') = main ''1\<newline>\<newline>2\<newline>\<newline>3\<newline>\<newline>''"
    by (rule conjunct2)
  with a b c d e show ?thesis
    by (intro conjI)
qed

subsection \<open>C4: the top-3 window and the size of the vector\<close>

text \<open>
  Claim C4: for every input that records fewer than three block sums the window with
  the indices 0, 1 and 2 reaches past the end of the sorted vector, and for every input
  that records at least three, all three indices are in bounds and the out-of-bounds
  failure cannot happen. With fewer than three sums the routine never prints: it stops
  at the first index past the end, unless two sums were recorded and adding them
  already overflows.
\<close>

theorem C4_window_bounds:
  assumes "loop ([], 0) input = Inr (elfs, cnt)"
  shows "(length elfs < 3 \<longrightarrow>
            (\<exists>i\<in>set (iter 0 3). length (sort_greater elfs) \<le> i) \<and>
            main input = (if length elfs = 2 \<and> \<not> in_int (sum_list elfs)
                          then Inl SignedOverflow else Inl OutOfBounds)) \<and>
         (3 \<le> length elfs \<longrightarrow>
            (\<forall>i\<in>set (iter 0 3). i < length (sort_greater elfs)) \<and>
            main input \<noteq> Inl OutOfBounds)"
proof (intro conjI impI)
  assume "length elfs < 3"
  then show "\<exists>i\<in>set (iter 0 3). length (sort_greater elfs) \<le> i"
    by (simp add: iter_0_3 length_sort_greater)
next
  assume short: "length elfs < 3"
  have "\<forall>x\<in>set (sort_greater elfs). in_int x"
    using loop_in_int [OF assms] by (simp add: set_sort_greater)
  with short have "window_sum (sort_greater elfs) (iter 0 3) 0 =
    (if length elfs = 2 \<and> \<not> in_int (sum_list elfs) then Inl SignedOverflow else Inl OutOfBounds)"
    using window_sum_short [of "sort_greater elfs"]
    by (simp add: length_sort_greater sum_list_sort_greater)
  with assms show "main input =
    (if length elfs = 2 \<and> \<not> in_int (sum_list elfs) then Inl SignedOverflow else Inl OutOfBounds)"
    by (simp add: main_def)
next
  assume "3 \<le> length elfs"
  then show "\<forall>i\<in>set (iter 0 3). i < length (sort_greater elfs)"
    by (auto simp: iter_0_3 length_sort_greater)
next
  assume long: "3 \<le> length elfs"
  then have "0 < length (sort_greater elfs)"
    by (auto simp: length_sort_greater)
  then have "sort_greater elfs ! 0 \<in> set (sort_greater elfs)"
    by (rule nth_mem)
  with loop_in_int [OF assms] have "in_int (sort_greater elfs ! 0)"
    by (simp add: set_sort_greater)
  with long have "window_sum (sort_greater elfs) (iter 0 3) 0 \<noteq> Inl OutOfBounds"
    using window_sum_top3 [of "sort_greater elfs"] by (simp add: length_sort_greater)
  with assms show "main input \<noteq> Inl OutOfBounds"
    by (simp add: main_def)
qed

theorem C4_window_bounds_witness:
  "loop ([], 0) ''1\<newline>\<newline>2\<newline>\<newline>'' = Inr ([1, 2], 0) \<and>
   length [1, 2 :: int] < 3 \<and>
   main ''1\<newline>\<newline>2\<newline>\<newline>'' = Inl OutOfBounds \<and>
   loop ([], 0) ''1\<newline>\<newline>2\<newline>\<newline>3\<newline>\<newline>'' = Inr ([1, 2, 3], 0) \<and>
   3 \<le> length [1, 2, 3 :: int] \<and>
   main ''1\<newline>\<newline>2\<newline>\<newline>3\<newline>\<newline>'' \<noteq> Inl OutOfBounds"
proof -
  have a: "loop ([], 0) ''1\<newline>\<newline>2\<newline>\<newline>'' = Inr ([1, 2], 0)"
    by code_simp
  have b: "loop ([], 0) ''1\<newline>\<newline>2\<newline>\<newline>3\<newline>\<newline>'' = Inr ([1, 2, 3], 0)"
    by code_simp
  have c: "in_int (sum_list [1, 2])"
    by (simp add: in_int_def INT_MIN_def INT_MAX_def)
  from a b c C4_window_bounds [OF a] C4_window_bounds [OF b] show ?thesis
    by simp
qed

subsection \<open>C5: exactly three block sums\<close>

text \<open>
  Claim C5 says that for every input that records exactly three block sums the printed
  result equals the sum of all recorded block sums. As stated this fails where the
  sum is not a value of \<^verbatim>\<open>int\<close>: the three recorded sums 2147483647, 1 and 1 add up to
  2147483649, which \<^verbatim>\<open>out\<close> cannot hold, so whatever the routine prints after the
  overflow of \<^verbatim>\<open>out += elfs[1]\<close>, it is not the sum of the recorded block sums.
\<close>

theorem C5_counterexample:
  "loop ([], 0) ''2147483647\<newline>\<newline>1\<newline>\<newline>1\<newline>\<newline>'' = Inr ([2147483647, 1, 1], 0) \<and>
   length [2147483647, 1, 1 :: int] = 3 \<and>
   sum_list [2147483647, 1, 1 :: int] = 2147483649 \<and>
   INT_MAX < sum_list [2147483647, 1, 1 :: int] \<and>
   main ''2147483647\<newline>\<newline>1\<newline>\<newline>1\<newline>\<newline>'' = Inl SignedOverflow"
  by code_simp

text \<open>
  Claim C5, amended: for every input that records exactly three block sums, in any
  order, the program prints the sum of all recorded block sums, provided no \<^verbatim>\<open>int\<close>
  addition overflows while \<^verbatim>\<open>out\<close> is added up in descending order, that is, the sum
  of the two largest and the sum of all three are values of \<^verbatim>\<open>int\<close>. This is the
  condition under which every addition of the routine is defined.
\<close>

theorem C5_three_sums:
  assumes "loop ([], 0) input = Inr (elfs, cnt)"
    and "length elfs = 3"
    and "in_int (sum_list (take 2 (sort_greater elfs)))"
    and "in_int (sum_list elfs)"
  shows "main input = Inr (sum_list elfs)"
proof -
  let ?ys = "sort_greater elfs"
  have len: "length ?ys = 3"
    using assms(2) by (simp add: length_sort_greater)
  then have "?ys ! 0 \<in> set ?ys"
    by simp
  with loop_in_int [OF assms(1)] have "in_int (?ys ! 0)"
    by (simp add: set_sort_greater)
  moreover from len have "take 3 ?ys = ?ys"
    by simp
  ultimately have "window_sum ?ys (iter 0 3) 0 = Inr (sum_list ?ys)"
    using window_sum_top3 [of ?ys] len assms(3,4) by (simp add: sum_list_sort_greater)
  with assms(1) show ?thesis
    by (simp add: main_def sum_list_sort_greater)
qed

theorem C5_three_sums_witness:
  "loop ([], 0) ''5\<newline>\<newline>-2\<newline>1\<newline>\<newline>\<newline>'' = Inr ([5, -1, 0], 0) \<and>
   length [5, -1, 0 :: int] = 3 \<and>
   in_int (sum_list (take 2 (sort_greater [5, -1, 0]))) \<and>
   in_int (sum_list [5, -1, 0]) \<and>
   main ''5\<newline>\<newline>-2\<newline>1\<newline>\<newline>\<newline>'' = Inr (sum_list [5, -1, 0])"
proof -
  have a: "loop ([], 0) ''5\<newline>\<newline>-2\<newline>1\<newline>\<newline>\<newline>'' = Inr ([5, -1, 0], 0)"
    by code_simp
  have b: "length [5, -1, 0 :: int] = 3"
    by simp
  have c: "in_int (sum_list (take 2 (sort_greater [5, -1, 0])))"
    by code_simp
  have d: "in_int (sum_list [5, -1, 0])"
    by code_simp
  from a b c d C5_three_sums [OF a b c d] show ?thesis
    by simp
qed

subsection \<open>C6: permuting the groups\<close>

text \<open>
  Claim C6 says that for every input, permuting the order of its groups while
  preserving the blank-line structure leaves the printed result unchanged. As stated
  this fails when the input ends with a group that no blank line terminates and the
  permutation moves it: the groups 1, 2, 3, 100 in this order print 6, because 100 is
  the final group and is not recorded, and in the order 100, 1, 2, 3 they print 103.
  Both inputs have blank lines at the same places.
\<close>

theorem C6_counterexample:
  "getlines ''1\<newline>\<newline>2\<newline>\<newline>3\<newline>\<newline>100\<newline>'' = [''1'', [], ''2'', [], ''3'', [], ''100''] \<and>
   getlines ''100\<newline>\<newline>1\<newline>\<newline>2\<newline>\<newline>3\<newline>'' = [''100'', [], ''1'', [], ''2'', [], ''3''] \<and>
   main ''1\<newline>\<newline>2\<newline>\<newline>3\<newline>\<newline>100\<newline>'' = Inr 6 \<and>
   main ''100\<newline>\<newline>1\<newline>\<newline>2\<newline>\<newline>3\<newline>'' = Inr 103"
  by code_simp

text \<open>
  Claim C6, amended: for every input, permuting the order of the groups that a blank
  line terminates, with the lines after the last blank line left in place, leaves the
  printed result unchanged: the output is invariant under permutation of the recorded
  block sums. Here \<open>gs\<close> and \<open>gs'\<close> are the terminated groups of the two inputs, one a
  permutation of the other, and \<open>t\<close> are the lines after them.
\<close>

theorem C6_permuting_terminated_groups:
  assumes "getlines input = group_lines gs @ t"
    and "getlines input' = group_lines gs' @ t"
    and "mset gs' = mset gs"
  shows "printed (main input') = printed (main input)"
proof (cases "\<forall>g\<in>set gs. chunk_sums g \<noteq> None")
  case True
  from assms(3) have sets: "set gs' = set gs"
    by (rule mset_eq_setD)
  with True have True': "\<forall>g\<in>set gs'. chunk_sums g \<noteq> None"
    by simp
  have "sort_greater (concat (map (\<lambda>g. the (chunk_sums g)) gs') @ et) =
      sort_greater (concat (map (\<lambda>g. the (chunk_sums g)) gs) @ et)" for et
    using mset_concat_map_cong [OF assms(3)] by (intro sort_greater_cong) simp
  then show ?thesis
    by (simp only: printed_main_groups_Some [OF assms(1) True]
        printed_main_groups_Some [OF assms(2) True'])
next
  case False
  then have none: "\<exists>g\<in>set gs. chunk_sums g = None"
    by simp
  from assms(3) have "set gs' = set gs"
    by (rule mset_eq_setD)
  with none have none': "\<exists>g\<in>set gs'. chunk_sums g = None"
    by simp
  show ?thesis
    by (simp only: printed_main_groups_None [OF assms(1) none]
        printed_main_groups_None [OF assms(2) none'])
qed

theorem C6_permuting_terminated_groups_witness:
  "getlines ''1\<newline>\<newline>2\<newline>3\<newline>\<newline>4\<newline>\<newline>100\<newline>'' =
     group_lines [[''1''], [''2'', ''3''], [''4'']] @ [''100''] \<and>
   getlines ''4\<newline>\<newline>1\<newline>\<newline>2\<newline>3\<newline>\<newline>100\<newline>'' =
     group_lines [[''4''], [''1''], [''2'', ''3'']] @ [''100''] \<and>
   mset [[''4''], [''1''], [''2'', ''3'']] = mset [[''1''], [''2'', ''3''], [''4'']] \<and>
   printed (main ''4\<newline>\<newline>1\<newline>\<newline>2\<newline>3\<newline>\<newline>100\<newline>'') =
     printed (main ''1\<newline>\<newline>2\<newline>3\<newline>\<newline>4\<newline>\<newline>100\<newline>'') \<and>
   printed (main ''1\<newline>\<newline>2\<newline>3\<newline>\<newline>4\<newline>\<newline>100\<newline>'') = Some 10"
proof -
  have a: "getlines ''1\<newline>\<newline>2\<newline>3\<newline>\<newline>4\<newline>\<newline>100\<newline>'' =
      group_lines [[''1''], [''2'', ''3''], [''4'']] @ [''100'']"
    by code_simp
  have b: "getlines ''4\<newline>\<newline>1\<newline>\<newline>2\<newline>3\<newline>\<newline>100\<newline>'' =
      group_lines [[''4''], [''1''], [''2'', ''3'']] @ [''100'']"
    by code_simp
  have c: "mset [[''4''], [''1''], [''2'', ''3'']] = mset [[''1''], [''2'', ''3''], [''4'']]"
    by simp
  have d: "printed (main ''1\<newline>\<newline>2\<newline>3\<newline>\<newline>4\<newline>\<newline>100\<newline>'') = Some 10"
    by code_simp
  from a b c d C6_permuting_terminated_groups [OF a b c] show ?thesis
    by (intro conjI)
qed

subsection \<open>C7: as many recorded sums as blank lines\<close>

text \<open>
  Claim C7: at every point during the scan, and at end of input, the number of
  recorded block sums equals the number of blank lines read so far. The state of the
  loop after the first \<open>k\<close> lines of the input is \<open>scan_lines (take k (getlines input))\<close>
  from the initial state, and the state at end of input is the result of \<open>loop\<close>.
  Whenever the state exists, that is, no line so far made the routine stop, \<open>elfs\<close> has
  one entry for each blank line read; the lines after the last blank line add none.
\<close>

theorem C7_recorded_equals_blank_lines:
  "(scan_lines (take k (getlines input)) ([], 0) = Inr (elfs, cnt) \<longrightarrow>
      length elfs = length (filter (\<lambda>l. l = []) (take k (getlines input)))) \<and>
   (loop ([], 0) input = Inr (elfs', cnt') \<longrightarrow>
      length elfs' = length (filter (\<lambda>l. l = []) (getlines input)))"
  using scan_lines_length [of "take k (getlines input)" "[]" 0 elfs cnt]
    scan_lines_length [of "getlines input" "[]" 0 elfs' cnt']
  by (simp add: loop_scan)

theorem C7_recorded_equals_blank_lines_witness:
  "scan_lines (take 3 (getlines ''1\<newline>\<newline>2\<newline>\<newline>3\<newline>'')) ([], 0) = Inr ([1], 2) \<and>
   length [1::int] = length (filter (\<lambda>l. l = []) (take 3 (getlines ''1\<newline>\<newline>2\<newline>\<newline>3\<newline>''))) \<and>
   loop ([], 0) ''1\<newline>\<newline>2\<newline>\<newline>3\<newline>'' = Inr ([1, 2], 3) \<and>
   length [1, 2 :: int] = length (filter (\<lambda>l. l = []) (getlines ''1\<newline>\<newline>2\<newline>\<newline>3\<newline>''))"
proof -
  have a: "scan_lines (take 3 (getlines ''1\<newline>\<newline>2\<newline>\<newline>3\<newline>'')) ([], 0) = Inr ([1], 2)"
    by code_simp
  have b: "loop ([], 0) ''1\<newline>\<newline>2\<newline>\<newline>3\<newline>'' = Inr ([1, 2], 3)"
    by code_simp
  from a b C7_recorded_equals_blank_lines [of 3 "''1\<newline>\<newline>2\<newline>\<newline>3\<newline>''" "[1]" 2 "[1, 2]" 3]
  show ?thesis
    by simp
qed

subsection \<open>C8: one pass through the loop body\<close>

text \<open>
  Claim C8 says that for every line, an empty line appends the accumulator to the
  vector and resets it, and a line that parses as an integer adds its value to the
  accumulator and leaves the vector unchanged. The second half fails as stated where
  the addition overflows: after the line 2147483647 the accumulator holds 2147483647,
  the next line 1 parses as the integer 1, and adding it leaves the type \<^verbatim>\<open>int\<close>.
\<close>

theorem C8_counterexample:
  "loop ([], 0) ''2147483647\<newline>'' = Inr ([], 2147483647) \<and>
   getline ''1\<newline>'' = Some (''1'', []) \<and> stoi ''1'' = Inr 1 \<and>
   body ([], 2147483647) ''1'' = Inl SignedOverflow \<and>
   loop ([], 0) ''2147483647\<newline>1\<newline>'' = Inl SignedOverflow"
  by code_simp

text \<open>
  Claim C8, amended: for every line that the loop reads, if the line is empty, the
  accumulator is appended to the vector and reset to zero; if \<^verbatim>\<open>stoi\<close> reads an
  integer from the line and the accumulator plus that integer is a value of \<^verbatim>\<open>int\<close>,
  the integer is added to the accumulator and the vector is unchanged. In both cases
  the loop goes on from the new state with the rest of the input.
\<close>

theorem C8_loop_step:
  assumes "getline s = Some (line, rest)"
  shows "(line = [] \<longrightarrow>
            body (elfs, cnt) line = Inr (elfs @ [cnt], 0) \<and>
            loop (elfs, cnt) s = loop (elfs @ [cnt], 0) rest) \<and>
         (stoi line = Inr v \<and> in_int (cnt + v) \<longrightarrow>
            body (elfs, cnt) line = Inr (elfs, cnt + v) \<and>
            loop (elfs, cnt) s = loop (elfs, cnt + v) rest)"
  using assms by (simp add: loop.simps [of _ s] body_blank body_integer)

theorem C8_loop_step_witness:
  "getline ''\<newline>7\<newline>'' = Some ([], ''7\<newline>'') \<and>
   body ([4], 5) [] = Inr ([4] @ [5], 0) \<and>
   loop ([4], 5) ''\<newline>7\<newline>'' = loop ([4] @ [5], 0) ''7\<newline>'' \<and>
   getline ''7\<newline>'' = Some (''7'', []) \<and> stoi ''7'' = Inr 7 \<and> in_int (0 + 7) \<and>
   body ([4, 5], 0) ''7'' = Inr ([4, 5], 0 + 7) \<and>
   loop ([4, 5], 0) ''7\<newline>'' = loop ([4, 5], 0 + 7) []"
proof -
  have a: "getline ''\<newline>7\<newline>'' = Some ([], ''7\<newline>'')"
    by code_simp
  have b: "getline ''7\<newline>'' = Some (''7'', [])"
    by code_simp
  have c: "stoi ''7'' = Inr 7"
    by code_simp
  have d: "in_int (0 + 7)"
    by code_simp
  from a b c d C8_loop_step [OF a, of "[4]" 5 0] C8_loop_step [OF b, of "[4, 5]" 0 7]
  show ?thesis
    by simp
qed

subsection \<open>C10: a blank line always records a sum\<close>

text \<open>
  Claim C10: every blank line appends exactly one block sum, also when no integer line
  precedes it in its group. The loop body on a blank line pushes the accumulator and
  resets it. So from any state of the loop, input that consists of \<open>k + 1\<close> blank lines
  ends with the accumulator and then \<open>k\<close> zeros appended to the vector and the
  accumulator at zero; at the start of input all \<open>k + 1\<close> recorded sums are zero; after
  any input \<open>pre\<close> that ends at a line boundary and leaves the state \<open>(elfs, cnt)\<close>, the
  blank lines that follow record \<open>cnt\<close> and then \<open>k\<close> zeros; and when more input follows
  the blank lines, the loop goes on from that state.
\<close>

theorem C10_blank_lines_record_sums:
  "body (elfs, cnt) [] = Inr (elfs @ [cnt], 0) \<and>
   loop (elfs, cnt) (replicate (Suc k) newline) = Inr (elfs @ cnt # replicate k 0, 0) \<and>
   loop ([], 0) (replicate (Suc k) newline) = Inr (replicate (Suc k) 0, 0) \<and>
   ((pre = [] \<or> last pre = newline) \<and> loop ([], 0) pre = Inr (elfs, cnt) \<longrightarrow>
      loop ([], 0) (pre @ replicate (Suc k) newline) = Inr (elfs @ cnt # replicate k 0, 0)) \<and>
   loop (elfs, cnt) (replicate (Suc k) newline @ rest) =
     loop (elfs @ cnt # replicate k 0, 0) rest"
proof (intro conjI impI)
  show "body (elfs, cnt) [] = Inr (elfs @ [cnt], 0)"
    by (rule body_blank)
next
  show "loop (elfs, cnt) (replicate (Suc k) newline) = Inr (elfs @ cnt # replicate k 0, 0)"
    using loop_blank_lines [of elfs cnt k "[]"] by (simp add: loop_Nil)
next
  show "loop ([], 0) (replicate (Suc k) newline) = Inr (replicate (Suc k) 0, 0)"
    using loop_blank_lines [of "[]" 0 k "[]"] by (simp add: loop_Nil)
next
  assume "(pre = [] \<or> last pre = newline) \<and> loop ([], 0) pre = Inr (elfs, cnt)"
  then have "loop ([], 0) (pre @ replicate (Suc k) newline) =
      loop (elfs, cnt) (replicate (Suc k) newline)"
    by (simp add: loop_append)
  also have "\<dots> = Inr (elfs @ cnt # replicate k 0, 0)"
    using loop_blank_lines [of elfs cnt k "[]"] by (simp add: loop_Nil)
  finally show "loop ([], 0) (pre @ replicate (Suc k) newline) =
      Inr (elfs @ cnt # replicate k 0, 0)" .
next
  show "loop (elfs, cnt) (replicate (Suc k) newline @ rest) =
      loop (elfs @ cnt # replicate k 0, 0) rest"
    by (rule loop_blank_lines)
qed

theorem C10_blank_lines_record_sums_witness:
  "loop ([], 0) ''\<newline>\<newline>\<newline>'' = Inr ([0, 0, 0], 0) \<and>
   loop ([], 0) ''4\<newline>\<newline>5\<newline>'' = Inr ([4], 5) \<and>
   loop ([], 0) (''4\<newline>\<newline>5\<newline>'' @ ''\<newline>\<newline>\<newline>'') = Inr ([4, 5, 0, 0], 0)"
proof -
  have r: "replicate (Suc 2) newline = ''\<newline>\<newline>\<newline>''"
    by code_simp
  have p: "''4\<newline>\<newline>5\<newline>'' = [] \<or> last ''4\<newline>\<newline>5\<newline>'' = newline"
    by code_simp
  have l: "loop ([], 0) ''4\<newline>\<newline>5\<newline>'' = Inr ([4], 5)"
    by code_simp
  from C10_blank_lines_record_sums [of "[4]" 5 2 "''4\<newline>\<newline>5\<newline>''" "[]"] p l r
  show ?thesis
    by (simp add: numeral_2_eq_2)
qed

end
